theory Spec2Isabelle
  imports Main "HOL-Library.Sublist" "HOL-Library.AList"
begin

section \<open>Text\<close>

text \<open>
  A Python \<open>str\<close> is a sequence of Unicode code points, so text is a list of numbers.
  \<open>str\<close> writes an ASCII literal as such a list. What Python takes from the Unicode
  tables beyond ASCII is not in the program: the word characters among the other code
  points (\<open>uw\<close>) and the lower-casing of text that is not all ASCII (\<open>ul\<close>) are
  parameters, and every theorem holds for all of them.
\<close>

type_synonym ustr = "nat list"

definition str :: "string \<Rightarrow> ustr" where
  "str s = map of_char s"

definition ascii_lowercase :: string where
  "ascii_lowercase = ''abcdefghijklmnopqrstuvwxyz''"

definition ascii_uppercase :: string where
  "ascii_uppercase = ''ABCDEFGHIJKLMNOPQRSTUVWXYZ''"

definition digits :: string where
  "digits = ''0123456789''"

definition is_ascii :: "nat \<Rightarrow> bool" where
  "is_ascii c \<longleftrightarrow> c < 128"

section \<open>The package tracker of \<open>cortex/tarball_helper.py\<close>\<close>

text \<open>
  The class \<open>TarballHelper\<close> keeps one field, \<open>tracked_packages\<close> (annotated
  \<open>list[str]\<close>), and one file, \<open>MANUAL_TRACK_FILE\<close>. Its methods print to a console,
  start child processes and rewrite the file. The model passes all of this explicitly:
  a state holds the list, what the file holds, and the events issued so far, in order.
\<close>

subsection \<open>JSON values and the tracking file\<close>

text \<open>
  What \<open>json.load\<close> returns. An object keeps its members in the order of the text;
  Python's \<open>dict\<close> takes the last of several members with the same key.
\<close>

datatype json =
    JNull
  | JBool bool
  | JNum int
  | JStr ustr
  | JArr "json list"
  | JObj "(ustr \<times> json) list"

text \<open>
  The file at \<open>MANUAL_TRACK_FILE\<close>: absent, holding text that is not JSON, or holding
  the text of a JSON value.
\<close>

datatype disk = NoFile | BadText | JsonFile json

datatype error = AttributeError | JSONDecodeError | OSError | FileNotFoundError | MarkupError

definition dict_get :: "(ustr \<times> json) list \<Rightarrow> ustr \<Rightarrow> json \<Rightarrow> json" where
  "dict_get kvs k d = (case map_of (rev kvs) k of Some v \<Rightarrow> v | None \<Rightarrow> d)"

text \<open>
  \<^verbatim>\<open>
  def _load_tracked_packages(self) -> list[str]:
      if MANUAL_TRACK_FILE.exists():
          with open(MANUAL_TRACK_FILE) as f:
              return json.load(f).get("packages", [])
      return []
  \<close>
  \<open>json.load\<close> raises \<open>JSONDecodeError\<close> on text that is not JSON. Only a \<open>dict\<close> has
  the method \<open>get\<close>: on every other JSON value the attribute lookup raises
  \<open>AttributeError\<close>.
\<close>

definition load_tracked_packages :: "disk \<Rightarrow> error + json" where
  "load_tracked_packages d =
     (case d of
        NoFile \<Rightarrow> Inr (JArr [])
      | BadText \<Rightarrow> Inl JSONDecodeError
      | JsonFile j \<Rightarrow>
          (case j of
             JObj kvs \<Rightarrow> Inr (dict_get kvs (str ''packages'') (JArr []))
           | _ \<Rightarrow> Inl AttributeError))"

text \<open>The JSON array of a list of strings, and the list of strings a JSON value is, if any.\<close>

definition str_list :: "ustr list \<Rightarrow> json" where
  "str_list ps = JArr (map JStr ps)"

fun json_str :: "json \<Rightarrow> ustr option" where
  "json_str (JStr s) = Some s"
| "json_str _ = None"

fun those_strs :: "json list \<Rightarrow> ustr list option" where
  "those_strs [] = Some []"
| "those_strs (j # js) =
     (case json_str j of
        None \<Rightarrow> None
      | Some s \<Rightarrow> (case those_strs js of None \<Rightarrow> None | Some ss \<Rightarrow> Some (s # ss)))"

fun tracked_of :: "json \<Rightarrow> ustr list option" where
  "tracked_of (JArr js) = those_strs js"
| "tracked_of _ = None"

fun is_object :: "json \<Rightarrow> bool" where
  "is_object (JObj _) = True"
| "is_object _ = False"

subsection \<open>State, events and exceptions\<close>

datatype event =
    Printed ustr
  | Ran "ustr list" int
  | Mkdir
  | Wrote json

record state =
  tracked_packages :: "ustr list"
  disk :: disk
  trace :: "event list"

text \<open>
  A method either returns or raises; in both cases it leaves a state behind, since
  what it did to the object and to the file before raising stays done.
\<close>

datatype outcome = Done state | Raised error state

fun final :: "outcome \<Rightarrow> state" where
  "final (Done s) = s"
| "final (Raised e s) = s"

fun then_do :: "outcome \<Rightarrow> (state \<Rightarrow> outcome) \<Rightarrow> outcome" where
  "then_do (Done s) f = f s"
| "then_do (Raised e s) f = Raised e s"

text \<open>
  Two things are not the program's to decide. The package manager: \<open>sh\<close> gives, from
  the events so far and a command, the exit status of the child process, or \<open>None\<close>
  when the command cannot be started (\<open>subprocess.run\<close> then raises
  \<open>FileNotFoundError\<close>). With \<open>check=False\<close> the exit status is recorded and
  otherwise dropped. The console: \<open>rich\<close> says which texts \<open>console.print\<close> accepts;
  on the others (text whose square brackets are not well-formed markup, such as a
  closing tag that was never opened) it raises \<open>MarkupError\<close>. Errors of the file
  system while saving are not modelled.
\<close>

type_synonym shell = "event list \<Rightarrow> ustr list \<Rightarrow> int option"

type_synonym console = "ustr \<Rightarrow> bool"

definition console_print :: "console \<Rightarrow> ustr \<Rightarrow> state \<Rightarrow> outcome" where
  "console_print rich msg s =
     (if rich msg then Done (s\<lparr>trace := trace s @ [Printed msg]\<rparr>) else Raised MarkupError s)"

definition subprocess_run :: "shell \<Rightarrow> ustr list \<Rightarrow> state \<Rightarrow> outcome" where
  "subprocess_run sh cmd s =
     (case sh (trace s) cmd of
        None \<Rightarrow> Raised FileNotFoundError s
      | Some status \<Rightarrow> Done (s\<lparr>trace := trace s @ [Ran cmd status]\<rparr>))"

text \<open>
  \<^verbatim>\<open>
  def _save_tracked_packages(self):
      MANUAL_TRACK_FILE.parent.mkdir(parents=True, exist_ok=True)
      with open(MANUAL_TRACK_FILE, "w") as f:
          json.dump({"packages": self.tracked_packages}, f, indent=2)
  \<close>
\<close>

definition packages_json :: "ustr list \<Rightarrow> json" where
  "packages_json ps = JObj [(str ''packages'', str_list ps)]"

definition save_tracked_packages :: "state \<Rightarrow> state" where
  "save_tracked_packages s =
     s\<lparr>disk := JsonFile (packages_json (tracked_packages s)),
       trace := trace s @ [Mkdir, Wrote (packages_json (tracked_packages s))]\<rparr>"

text \<open>
  \<^verbatim>\<open>
  def track(self, pkg: str):
      if pkg not in self.tracked_packages:
          self.tracked_packages.append(pkg)
          self._save_tracked_packages()
          console.print(f"[green]Tracked:[/green] {pkg}")
  \<close>
\<close>

definition tracked_msg :: "ustr \<Rightarrow> ustr" where
  "tracked_msg pkg = str ''[green]Tracked:[/green] '' @ pkg"

definition track :: "console \<Rightarrow> state \<Rightarrow> ustr \<Rightarrow> outcome" where
  "track rich s pkg =
     (if pkg \<notin> set (tracked_packages s)
      then console_print rich (tracked_msg pkg)
             (save_tracked_packages (s\<lparr>tracked_packages := tracked_packages s @ [pkg]\<rparr>))
      else Done s)"

text \<open>
  \<^verbatim>\<open>
  def install_deps(self, pkgs: list[str]):
      for pkg in pkgs:
          console.print(f"[cyan]Installing:[/cyan] {pkg}")
          subprocess.run(["sudo", "apt-get", "install", "-y", pkg], check=False)
          self.track(pkg)
  \<close>
\<close>

definition installing_msg :: "ustr \<Rightarrow> ustr" where
  "installing_msg pkg = str ''[cyan]Installing:[/cyan] '' @ pkg"

definition install_cmd :: "ustr \<Rightarrow> ustr list" where
  "install_cmd pkg = [str ''sudo'', str ''apt-get'', str ''install'', str ''-y'', pkg]"

definition install_one :: "console \<Rightarrow> shell \<Rightarrow> state \<Rightarrow> ustr \<Rightarrow> outcome" where
  "install_one rich sh s pkg =
     then_do (console_print rich (installing_msg pkg) s) (\<lambda>s1.
     then_do (subprocess_run sh (install_cmd pkg) s1) (\<lambda>s2.
     track rich s2 pkg))"

fun install_deps :: "console \<Rightarrow> shell \<Rightarrow> state \<Rightarrow> ustr list \<Rightarrow> outcome" where
  "install_deps rich sh s [] = Done s"
| "install_deps rich sh s (pkg # pkgs) =
     then_do (install_one rich sh s pkg) (\<lambda>s1. install_deps rich sh s1 pkgs)"

text \<open>
  \<^verbatim>\<open>
  def cleanup(self):
      for pkg in self.tracked_packages:
          console.print(f"[yellow]Removing:[/yellow] {pkg}")
          subprocess.run(["sudo", "apt-get", "remove", "-y", pkg], check=False)
      self.tracked_packages = []
      self._save_tracked_packages()
      console.print("[green]Cleanup complete.[/green]")
  \<close>
\<close>

definition removing_msg :: "ustr \<Rightarrow> ustr" where
  "removing_msg pkg = str ''[yellow]Removing:[/yellow] '' @ pkg"

definition remove_cmd :: "ustr \<Rightarrow> ustr list" where
  "remove_cmd pkg = [str ''sudo'', str ''apt-get'', str ''remove'', str ''-y'', pkg]"

definition remove_one :: "console \<Rightarrow> shell \<Rightarrow> state \<Rightarrow> ustr \<Rightarrow> outcome" where
  "remove_one rich sh s pkg =
     then_do (console_print rich (removing_msg pkg) s) (\<lambda>s1.
     subprocess_run sh (remove_cmd pkg) s1)"

fun remove_all :: "console \<Rightarrow> shell \<Rightarrow> state \<Rightarrow> ustr list \<Rightarrow> outcome" where
  "remove_all rich sh s [] = Done s"
| "remove_all rich sh s (pkg # pkgs) =
     then_do (remove_one rich sh s pkg) (\<lambda>s1. remove_all rich sh s1 pkgs)"

definition cleanup :: "console \<Rightarrow> shell \<Rightarrow> state \<Rightarrow> outcome" where
  "cleanup rich sh s =
     then_do (remove_all rich sh s (tracked_packages s)) (\<lambda>s1.
     console_print rich (str ''[green]Cleanup complete.[/green]'')
       (save_tracked_packages (s1\<lparr>tracked_packages := []\<rparr>)))"



text \<open>
  Starting the program: the constructor stores what \<open>_load_tracked_packages\<close>
  returns. The states the program reaches by itself begin with no file; every command
  is a new process that loads the file the previous one left, and a method that
  raises ends the process in the state it had reached.
\<close>

inductive reachable :: "state \<Rightarrow> bool" where
  fresh: "reachable \<lparr>tracked_packages = [], disk = NoFile, trace = []\<rparr>"
| by_track: "reachable s \<Longrightarrow> reachable (final (track rich s P))"
| by_install: "reachable s \<Longrightarrow> reachable (final (install_deps rich sh s pkgs))"
| by_cleanup: "reachable s \<Longrightarrow> reachable (final (cleanup rich sh s))"
| restart: "reachable s \<Longrightarrow> load_tracked_packages (disk s) = Inr j \<Longrightarrow> tracked_of j = Some ps
            \<Longrightarrow> reachable \<lparr>tracked_packages = ps, disk = disk s, trace = []\<rparr>"

definition in_sync :: "state \<Rightarrow> bool" where
  "in_sync s \<longleftrightarrow>
     (disk s = NoFile \<and> tracked_packages s = []) \<or>
     disk s = JsonFile (packages_json (tracked_packages s))"

text \<open>An operation that only prints and runs commands keeps list and file.\<close>

definition same_store :: "state \<Rightarrow> state \<Rightarrow> bool" where
  "same_store s s' \<longleftrightarrow> tracked_packages s' = tracked_packages s \<and> disk s' = disk s"

section \<open>The package resolver\<close>

text \<open>
  \<open>str.lower\<close>: on text that is all ASCII it turns \<open>A\<close> to \<open>Z\<close> into \<open>a\<close> to \<open>z\<close> and
  keeps everything else; on any other text the result is what the Unicode tables say,
  \<open>ul\<close>.
\<close>

definition lower_ascii :: "nat \<Rightarrow> nat" where
  "lower_ascii c =
     (case map_of (zip (str ascii_uppercase) (str ascii_lowercase)) c of
        Some l \<Rightarrow> l
      | None \<Rightarrow> c)"

definition lower :: "(ustr \<Rightarrow> ustr) \<Rightarrow> ustr \<Rightarrow> ustr" where
  "lower ul s = (if list_all is_ascii s then map lower_ascii s else ul s)"

text \<open>
  \<^verbatim>\<open>
  def suggest_apt_packages(self, deps: list[str]) -> dict[str, str]:
      mapping = {}
      for dep in deps:
          pkg = f"lib{dep.lower()}-dev"
          mapping[dep] = pkg
      return mapping
  \<close>
  A \<open>dict\<close> keeps its keys in the order of their first insertion; assigning to a key
  it has replaces the value in place. That is \<open>AList.update\<close> on an association list.
\<close>

definition suggest_apt_packages :: "(ustr \<Rightarrow> ustr) \<Rightarrow> ustr list \<Rightarrow> (ustr \<times> ustr) list" where
  "suggest_apt_packages ul deps =
     fold (\<lambda>dep mapping. AList.update dep (str ''lib'' @ lower ul dep @ str ''-dev'') mapping)
       deps []"

section \<open>The dependency scanner\<close>

subsection \<open>The regular expressions\<close>

text \<open>
  \<open>\w\<close> in a pattern for \<open>str\<close>: the ASCII letters, digits and the underscore, and
  among the other code points those that Unicode counts as word characters, \<open>uw\<close>.
\<close>

definition is_word :: "(nat \<Rightarrow> bool) \<Rightarrow> nat \<Rightarrow> bool" where
  "is_word uw c =
     (if is_ascii c
      then c \<in> set (str (ascii_lowercase @ ascii_uppercase @ digits @ ''_''))
      else uw c)"

definition is_word_or_hyphen :: "(nat \<Rightarrow> bool) \<Rightarrow> nat \<Rightarrow> bool" where
  "is_word_or_hyphen uw c \<longleftrightarrow> is_word uw c \<or> c \<in> set (str ''-'')"

definition is_quote :: "nat \<Rightarrow> bool" where
  "is_quote c \<longleftrightarrow> c \<in> set (str [CHR 0x27, CHR 0x22])"

text \<open>
  The patterns of the source are sequences of five kinds of item: literal text, an
  optional character (\<open>\[?\<close>), one character of a class (\<open>['\"]\<close>), the group
  \<open>(C+)\<close> of a class \<open>C\<close> (greedy, at least one character), and the group \<open>(.*?)\<close>
  (as few characters as possible; with \<open>re.DOTALL\<close> the dot is any character). Every
  pattern has exactly one group.
\<close>

datatype atom =
    Lit ustr
  | Opt nat
  | Cls "nat \<Rightarrow> bool"
  | GroupPlus "nat \<Rightarrow> bool"
  | GroupLazyAny

fun first_some :: "('a \<Rightarrow> 'b option) \<Rightarrow> 'a list \<Rightarrow> 'b option" where
  "first_some f [] = None"
| "first_some f (x # xs) = (case f x of Some y \<Rightarrow> Some y | None \<Rightarrow> first_some f xs)"

text \<open>
  \<open>rmatch r s g\<close> matches the items \<open>r\<close> at the start of \<open>s\<close> as a backtracking
  matcher does, and returns the text of the group (\<open>g\<close> until the group is met) and
  what follows the match. A greedy group tries the longest run first and gives
  characters back one at a time; a lazy one tries the shortest first.
\<close>

fun rmatch :: "atom list \<Rightarrow> ustr \<Rightarrow> ustr \<Rightarrow> (ustr \<times> ustr) option" where
  "rmatch [] s g = Some (g, s)"
| "rmatch (Lit l # r) s g = (if prefix l s then rmatch r (drop (length l) s) g else None)"
| "rmatch (Opt c # r) s g =
     (case (case s of [] \<Rightarrow> None | d # t \<Rightarrow> if d = c then rmatch r t g else None) of
        Some m \<Rightarrow> Some m
      | None \<Rightarrow> rmatch r s g)"
| "rmatch (Cls P # r) s g = (case s of [] \<Rightarrow> None | d # t \<Rightarrow> if P d then rmatch r t g else None)"
| "rmatch (GroupPlus P # r) s g =
     first_some (\<lambda>n. rmatch r (drop n s) (take n s)) (rev [1..<Suc (length (takeWhile P s))])"
| "rmatch (GroupLazyAny # r) s g =
     first_some (\<lambda>n. rmatch r (drop n s) (take n s)) [0..<Suc (length s)]"

text \<open>
  \<open>re.findall\<close> with a pattern of one group: the group's text of every match, the
  matches found from left to right, each search starting where the previous match
  ended. The patterns here all begin with a literal or a character class, so a match is
  never empty and the next search starts in a shorter text.
\<close>

function findall :: "atom list \<Rightarrow> ustr \<Rightarrow> ustr list" where
  "findall r [] = (case rmatch r [] [] of None \<Rightarrow> [] | Some (g, rest) \<Rightarrow> [g])"
| "findall r (c # cs) =
     (case rmatch r (c # cs) [] of
        None \<Rightarrow> findall r cs
      | Some (g, rest) \<Rightarrow>
          g # (if length rest \<le> length cs then findall r rest else findall r cs))"
  by pat_completeness auto
termination
  by (relation "measure (\<lambda>(r, s). length s)") auto

text \<open>
  \<^verbatim>\<open>
  patterns = {
      "CMakeLists.txt": r"find_package\((\w+)",
      "meson.build": r"dependency\(['\"](\w+)",
      "configure.ac": r"AC_CHECK_LIB\(\[?(\w+)",
      "Makefile": r"-l(\w+)",
      "setup.py": r"install_requires=\[(.*?)\]",
  }
  \<close>
\<close>

definition cmake_pattern :: "(nat \<Rightarrow> bool) \<Rightarrow> atom list" where
  "cmake_pattern uw = [Lit (str ''find_package(''), GroupPlus (is_word uw)]"

definition meson_pattern :: "(nat \<Rightarrow> bool) \<Rightarrow> atom list" where
  "meson_pattern uw = [Lit (str ''dependency(''), Cls is_quote, GroupPlus (is_word uw)]"

definition autoconf_pattern :: "(nat \<Rightarrow> bool) \<Rightarrow> atom list" where
  "autoconf_pattern uw = [Lit (str ''AC_CHECK_LIB(''), Opt (of_char CHR ''[''), GroupPlus (is_word uw)]"

definition makefile_pattern :: "(nat \<Rightarrow> bool) \<Rightarrow> atom list" where
  "makefile_pattern uw = [Lit (str ''-l''), GroupPlus (is_word uw)]"

definition closing_bracket :: nat where
  "closing_bracket = of_char CHR '']''"

definition setup_pattern :: "atom list" where
  "setup_pattern = [Lit (str ''install_requires=[''), GroupLazyAny, Lit (str '']'')]"

definition patterns :: "(nat \<Rightarrow> bool) \<Rightarrow> (ustr \<times> atom list) list" where
  "patterns uw =
     [(str ''CMakeLists.txt'', cmake_pattern uw),
      (str ''meson.build'', meson_pattern uw),
      (str ''configure.ac'', autoconf_pattern uw),
      (str ''Makefile'', makefile_pattern uw),
      (str ''setup.py'', setup_pattern)]"

text \<open>The pattern \<^verbatim>\<open>r"['\"]([\w\-]+)['\"]"\<close> applied to each list found in \<open>setup.py\<close>.\<close>

definition token_pattern :: "(nat \<Rightarrow> bool) \<Rightarrow> atom list" where
  "token_pattern uw = [Cls is_quote, GroupPlus (is_word_or_hyphen uw), Cls is_quote]"

text \<open>
  A Python \<open>set\<close> of strings is a list without repetitions; \<open>set.update\<close> adds the
  elements it does not have. The order in which \<open>list(deps)\<close> gives the elements is not
  fixed by Python, so the theorems below speak of the elements of the result and of
  their number, never of their order.
\<close>

definition set_update :: "ustr list \<Rightarrow> ustr list \<Rightarrow> ustr list" where
  "set_update deps xs = List.union xs deps"

text \<open>
  \<^verbatim>\<open>
  deps = set()
  if fname in patterns:
      matches = re.findall(patterns[fname], content, re.DOTALL)
      if fname == "setup.py":
          for m in matches:
              deps.update(re.findall(r"['\"]([\w\-]+)['\"]", m))
      else:
          deps.update(matches)
  return list(deps)
  \<close>
\<close>

definition parse_dependencies :: "(nat \<Rightarrow> bool) \<Rightarrow> ustr \<Rightarrow> ustr \<Rightarrow> ustr list" where
  "parse_dependencies uw fname content =
     (case map_of (patterns uw) fname of
        None \<Rightarrow> []
      | Some r \<Rightarrow>
          (if fname = str ''setup.py''
           then fold (\<lambda>m deps. set_update deps (findall (token_pattern uw) m)) (findall r content) []
           else set_update [] (findall r content)))"

subsection \<open>Walking the tree\<close>

text \<open>
  A directory entry is a file with its name and text, a file that cannot be opened, or
  a directory with its name and entries. The file system maps a path to what is there.
\<close>

datatype node =
    File ustr ustr
  | Unreadable ustr
  | Dir ustr "node list"

type_synonym filesystem = "ustr \<Rightarrow> node option"

fun is_dir :: "node \<Rightarrow> bool" where
  "is_dir (Dir _ _) = True"
| "is_dir _ = False"

text \<open>
  \<open>os.walk(path)\<close>, top down: the files of a directory, then its subdirectories in
  turn. With no \<open>onerror\<close> handler, a path that cannot be listed (one that is absent,
  or is a file) yields nothing.
\<close>

fun os_walk :: "node \<Rightarrow> node list list" where
  "os_walk (Dir name entries) =
     filter (\<lambda>e. \<not> is_dir e) entries # concat (map os_walk (filter is_dir entries))"
| "os_walk _ = []"

definition build_files :: "ustr list" where
  "build_files =
     [str ''CMakeLists.txt'', str ''configure.ac'', str ''meson.build'', str ''Makefile'',
      str ''setup.py'']"

text \<open>
  \<^verbatim>\<open>
  def analyze(self, path: str) -> list[str]:
      deps = set()
      for root, _, files in os.walk(path):
          for fname in files:
              if fname in ("CMakeLists.txt", "configure.ac", "meson.build",
                           "Makefile", "setup.py"):
                  fpath = os.path.join(root, fname)
                  with open(fpath, errors="ignore") as f:
                      content = f.read()
                      deps.update(self._parse_dependencies(fname, content))
      return list(deps)
  \<close>
  \<open>open\<close> raises \<open>OSError\<close> on a file that cannot be opened, and nothing catches it.
\<close>

fun scan_files :: "(nat \<Rightarrow> bool) \<Rightarrow> node list \<Rightarrow> ustr list \<Rightarrow> error + ustr list" where
  "scan_files uw [] deps = Inr deps"
| "scan_files uw (File fname content # fs) deps =
     (if fname \<in> set build_files
      then scan_files uw fs (set_update deps (parse_dependencies uw fname content))
      else scan_files uw fs deps)"
| "scan_files uw (Unreadable fname # fs) deps =
     (if fname \<in> set build_files then Inl OSError else scan_files uw fs deps)"
| "scan_files uw (Dir _ _ # fs) deps = scan_files uw fs deps"

definition analyze :: "(nat \<Rightarrow> bool) \<Rightarrow> filesystem \<Rightarrow> ustr \<Rightarrow> error + ustr list" where
  "analyze uw fs path =
     (case fs path of
        None \<Rightarrow> Inr []
      | Some tree \<Rightarrow> scan_files uw (concat (os_walk tree)) [])"

subsection \<open>Shapes of input\<close>

text \<open>
  \<open>begins_in_front Q gap t\<close>: in the text \<open>gap @ t\<close>, something that \<open>Q\<close> recognises
  begins at a position inside \<open>gap\<close>.
\<close>

fun begins_in_front :: "(ustr \<Rightarrow> bool) \<Rightarrow> ustr \<Rightarrow> ustr \<Rightarrow> bool" where
  "begins_in_front Q [] t = False"
| "begins_in_front Q (c # cs) t = (Q (c # cs @ t) \<or> begins_in_front Q cs t)"

text \<open>
  A call \<open>find_package(X\<close> begins a text: the text \<open>find_package(\<close> and directly after
  it a word character, the first of the name \<open>X\<close>. A name ends where the text ends or
  goes on with a character that is not a word character.
\<close>

definition starts_call :: "(nat \<Rightarrow> bool) \<Rightarrow> ustr \<Rightarrow> bool" where
  "starts_call uw s \<longleftrightarrow>
     prefix (str ''find_package('') s \<and>
     (case drop (length (str ''find_package('')) s of [] \<Rightarrow> False | d # _ \<Rightarrow> is_word uw d)"

definition ends_run :: "(nat \<Rightarrow> bool) \<Rightarrow> ustr \<Rightarrow> bool" where
  "ends_run P t = (case t of [] \<Rightarrow> True | d # _ \<Rightarrow> \<not> P d)"

text \<open>
  The text of a CMake file with the calls \<open>find_package(X)\<close> of a list: each call is
  given as the text that stands before it (after the name of the call before) and its
  name; \<open>rest\<close> is the text after the last name. The shape is right when no call
  begins inside the texts between, and every name is a run of word characters that
  ends where the next text begins. Every text has this shape, as is shown at the end.
\<close>

fun cmake_text :: "(ustr \<times> ustr) list \<Rightarrow> ustr \<Rightarrow> ustr" where
  "cmake_text [] rest = rest"
| "cmake_text ((gap, x) # calls) rest = gap @ str ''find_package('' @ x @ cmake_text calls rest"

fun cmake_calls_ok :: "(nat \<Rightarrow> bool) \<Rightarrow> (ustr \<times> ustr) list \<Rightarrow> ustr \<Rightarrow> bool" where
  "cmake_calls_ok uw [] rest = (\<not> begins_in_front (starts_call uw) rest [])"
| "cmake_calls_ok uw ((gap, x) # calls) rest =
     (\<not> begins_in_front (starts_call uw) gap (str ''find_package('' @ x @ cmake_text calls rest) \<and>
      x \<noteq> [] \<and> list_all (is_word uw) x \<and> ends_run (is_word uw) (cmake_text calls rest) \<and>
      cmake_calls_ok uw calls rest)"

text \<open>
  A quoted token begins a text: a quote character, a non-empty run of word characters
  and hyphens, and a quote character directly after the run.
\<close>

definition starts_token :: "(nat \<Rightarrow> bool) \<Rightarrow> ustr \<Rightarrow> bool" where
  "starts_token uw s =
     (case s of
        [] \<Rightarrow> False
      | q # t \<Rightarrow>
          is_quote q \<and> takeWhile (is_word_or_hyphen uw) t \<noteq> [] \<and>
          (case dropWhile (is_word_or_hyphen uw) t of [] \<Rightarrow> False | q' # _ \<Rightarrow> is_quote q'))"

text \<open>
  The inside of a list literal with the quoted tokens of a list: each token is given as
  the text before it, its opening quote, its characters and its closing quote; \<open>rest\<close>
  is the text after the last token. The shape is right when no quoted token begins
  inside the texts between: these may hold anything else, quoted or not.
\<close>

fun list_text :: "(ustr \<times> nat \<times> ustr \<times> nat) list \<Rightarrow> ustr \<Rightarrow> ustr" where
  "list_text [] rest = rest"
| "list_text ((gap, q, tok, q') # toks) rest = gap @ q # tok @ q' # list_text toks rest"

fun list_tokens_ok :: "(nat \<Rightarrow> bool) \<Rightarrow> (ustr \<times> nat \<times> ustr \<times> nat) list \<Rightarrow> ustr \<Rightarrow> bool" where
  "list_tokens_ok uw [] rest = (\<not> begins_in_front (starts_token uw) rest [])"
| "list_tokens_ok uw ((gap, q, tok, q') # toks) rest =
     (\<not> begins_in_front (starts_token uw) gap (q # tok @ q' # list_text toks rest) \<and>
      is_quote q \<and> is_quote q' \<and> tok \<noteq> [] \<and> list_all (is_word_or_hyphen uw) tok \<and>
      list_tokens_ok uw toks rest)"

definition token_text :: "ustr \<times> nat \<times> ustr \<times> nat \<Rightarrow> ustr" where
  "token_text t = fst (snd (snd t))"

text \<open>The files that \<open>analyze\<close> opens: those of the walk with the name of a build file.\<close>

fun is_build_file :: "node \<Rightarrow> bool" where
  "is_build_file (File fname _) = (fname \<in> set build_files)"
| "is_build_file (Unreadable fname) = (fname \<in> set build_files)"
| "is_build_file (Dir _ _) = False"

definition opened_files :: "node \<Rightarrow> node list" where
  "opened_files tree = filter is_build_file (concat (os_walk tree))"

subsection \<open>Inputs of the examples\<close>

definition s_new :: state where
  "s_new = \<lparr>tracked_packages = [], disk = NoFile, trace = []\<rparr>"

definition s0 :: state where
  "s0 = \<lparr>tracked_packages = [str ''libfoo-dev''],
         disk = JsonFile (packages_json [str ''libfoo-dev'']), trace = []\<rparr>"

definition s_twice :: state where
  "s_twice = \<lparr>tracked_packages = [str ''libz-dev'', str ''libz-dev''],
              disk = JsonFile (packages_json [str ''libz-dev'', str ''libz-dev'']), trace = []\<rparr>"

definition all_print :: console where
  "all_print = (\<lambda>msg. True)"



definition apt_fails :: shell where
  "apt_fails = (\<lambda>tr cmd. Some 100)"


text \<open>
  The letters of the Latin-1 block from \<open>U+00C0\<close> on: what \<open>uw\<close> is on the
  characters beyond ASCII that the examples use.
\<close>

definition latin_letters :: "nat \<Rightarrow> bool" where
  "latin_letters c \<longleftrightarrow> 192 \<le> c \<and> c \<le> 255 \<and> c \<noteq> 215 \<and> c \<noteq> 247"

definition nl :: ustr where
  "nl = [10]"

definition cmake_example :: "(ustr \<times> ustr) list" where
  "cmake_example =
     [(nl @ str ''    '', str ''OpenSSL''),
      (str '')'' @ nl @ str ''    '', str ''ZLIB'')]"

definition project_tree :: node where
  "project_tree =
     Dir (str ''proj'')
       [File (str ''README.md'') (str ''find_package(Boost) -lfoo''),
        File (str ''CMakeLists.txt'') (cmake_text cmake_example (str '')'' @ nl @ str ''    '')),
        Dir (str ''docs'') [File (str ''index.rst'') (str ''dependency('x')'')]]"

definition project_fs :: filesystem where
  "project_fs = [str ''proj'' \<mapsto> project_tree]"

definition cafe_calls :: "(ustr \<times> ustr) list" where
  "cafe_calls =
     [(str ''project(x)'' @ nl, str ''Caf'' @ [233]),
      (str '' REQUIRED)'' @ nl, str ''ZLIB'')]"

definition cafe_tree :: node where
  "cafe_tree = Dir (str ''proj'') [File (str ''CMakeLists.txt'') (cmake_text cafe_calls (str '')''))]"

definition cafe_fs :: filesystem where
  "cafe_fs = [str ''proj'' \<mapsto> cafe_tree]"

definition mixed_tree :: node where
  "mixed_tree =
     Dir (str ''proj'')
       [File (str ''CMakeLists.txt'') (str ''find_package(OpenSSL)'' @ nl @ str ''find_package(ZLIB)''),
        File (str ''Makefile'') (str ''LDLIBS = -lm'')]"

definition mixed_fs :: filesystem where
  "mixed_fs = [str ''proj'' \<mapsto> mixed_tree]"

definition hyphen_tree :: node where
  "hyphen_tree =
     Dir (str ''proj'')
       [File (str ''CMakeLists.txt'') (str ''find_package(yaml-cpp)'' @ nl @ str ''find_package(ZLIB)'')]"

definition hyphen_fs :: filesystem where
  "hyphen_fs = [str ''proj'' \<mapsto> hyphen_tree]"

definition setup_tokens :: "(ustr \<times> nat \<times> ustr \<times> nat) list" where
  "setup_tokens =
     [(nl @ str ''    '', 39, str ''requests'', 39),
      (str '','' @ nl @ str ''    '', 34, str ''python-dateutil'', 34)]"

definition setup_rest :: ustr where
  "setup_rest = str '','' @ nl @ str ''    'numpy>=1.0','' @ nl"

definition setup_pre :: ustr where
  "setup_pre =
     str ''from setuptools import setup'' @ nl @ str ''setup(name='x', ''"

section \<open>Properties of the tracker\<close>

subsection \<open>What each operation leaves in the list and in the file\<close>

lemma final_console_print [simp]:
  "tracked_packages (final (console_print rich msg s)) = tracked_packages s"
  "disk (final (console_print rich msg s)) = disk s"
  by (simp_all add: console_print_def)

lemma final_subprocess_run [simp]:
  "tracked_packages (final (subprocess_run sh cmd s)) = tracked_packages s"
  "disk (final (subprocess_run sh cmd s)) = disk s"
  by (simp_all add: subprocess_run_def split: option.splits)

lemma load_packages_json: "load_tracked_packages (JsonFile (packages_json ps)) = Inr (str_list ps)"
  by (simp add: load_tracked_packages_def packages_json_def dict_get_def)

lemma track_present: "P \<in> set (tracked_packages s) \<Longrightarrow> track rich s P = Done s"
  by (simp add: track_def)

lemma track_tracked:
  "tracked_packages (final (track rich s P)) =
     (if P \<in> set (tracked_packages s) then tracked_packages s else tracked_packages s @ [P])"
  by (simp add: track_def save_tracked_packages_def)

lemma track_disk:
  "disk (final (track rich s P)) =
     (if P \<in> set (tracked_packages s) then disk s
      else JsonFile (packages_json (tracked_packages s @ [P])))"
  by (simp add: track_def save_tracked_packages_def)

lemma track_mem: "P \<in> set (tracked_packages (final (track rich s P)))"
  by (simp add: track_tracked)

lemma track_distinct:
  "distinct (tracked_packages s) \<Longrightarrow> distinct (tracked_packages (final (track rich s P)))"
  by (simp add: track_tracked)

lemma track_in_sync: "in_sync s \<Longrightarrow> in_sync (final (track rich s P))"
  by (simp add: in_sync_def track_tracked track_disk)

lemma remove_one_store: "same_store s (final (remove_one rich sh s P))"
  by (simp add: same_store_def remove_one_def console_print_def subprocess_run_def
      split: option.splits)

lemma then_do_final_cases:
  "(\<exists>s1. a = Done s1 \<and> final (then_do a f) = final (f s1)) \<or>
   (\<exists>e s1. a = Raised e s1 \<and> final (then_do a f) = s1)"
  by (cases a) simp_all

lemma remove_all_store: "same_store s (final (remove_all rich sh s pkgs))"
proof (induction pkgs arbitrary: s)
  case Nil
  show ?case by (simp add: same_store_def)
next
  case (Cons P pkgs)
  have one: "same_store s (final (remove_one rich sh s P))" by (rule remove_one_store)
  show ?case
  proof (cases "remove_one rich sh s P")
    case (Done s1)
    with one Cons.IH [of s1] show ?thesis by (simp add: same_store_def)
  next
    case (Raised e s1)
    with one show ?thesis by simp
  qed
qed

lemma cleanup_final:
  "(\<exists>s1. remove_all rich sh s (tracked_packages s) = Done s1 \<and>
      tracked_packages (final (cleanup rich sh s)) = [] \<and>
      disk (final (cleanup rich sh s)) = JsonFile (packages_json [])) \<or>
   (\<exists>e s1. remove_all rich sh s (tracked_packages s) = Raised e s1 \<and>
      tracked_packages (final (cleanup rich sh s)) = tracked_packages s \<and>
      disk (final (cleanup rich sh s)) = disk s)"
proof (cases "remove_all rich sh s (tracked_packages s)")
  case (Done s1)
  then show ?thesis by (simp add: cleanup_def save_tracked_packages_def)
next
  case (Raised e s1)
  with remove_all_store [of s rich sh "tracked_packages s"] show ?thesis
    by (simp add: cleanup_def same_store_def)
qed

lemma cleanup_distinct:
  "distinct (tracked_packages s) \<Longrightarrow> distinct (tracked_packages (final (cleanup rich sh s)))"
  using cleanup_final [of rich sh s] by auto

lemma cleanup_in_sync: "in_sync s \<Longrightarrow> in_sync (final (cleanup rich sh s))"
  using cleanup_final [of rich sh s] by (auto simp: in_sync_def)

lemma install_one_final:
  "(tracked_packages (final (install_one rich sh s P)) = tracked_packages s \<and>
    disk (final (install_one rich sh s P)) = disk s) \<or>
   (tracked_packages (final (install_one rich sh s P)) = tracked_packages s @ [P] \<and>
    P \<notin> set (tracked_packages s) \<and>
    disk (final (install_one rich sh s P)) = JsonFile (packages_json (tracked_packages s @ [P])))"
  by (simp add: install_one_def console_print_def subprocess_run_def track_tracked track_disk
      split: option.splits)

lemma install_one_distinct:
  "distinct (tracked_packages s) \<Longrightarrow> distinct (tracked_packages (final (install_one rich sh s P)))"
  using install_one_final [of rich sh s P] by auto

lemma install_one_in_sync: "in_sync s \<Longrightarrow> in_sync (final (install_one rich sh s P))"
  using install_one_final [of rich sh s P] by (auto simp: in_sync_def)

lemma install_deps_distinct:
  "distinct (tracked_packages s) \<Longrightarrow> distinct (tracked_packages (final (install_deps rich sh s pkgs)))"
proof (induction pkgs arbitrary: s)
  case Nil
  then show ?case by simp
next
  case (Cons P pkgs)
  have one: "distinct (tracked_packages (final (install_one rich sh s P)))"
    using Cons.prems by (rule install_one_distinct)
  show ?case
  proof (cases "install_one rich sh s P")
    case (Done s1)
    with one Cons.IH [of s1] show ?thesis by simp
  next
    case (Raised e s1)
    with one show ?thesis by simp
  qed
qed

lemma install_deps_in_sync: "in_sync s \<Longrightarrow> in_sync (final (install_deps rich sh s pkgs))"
proof (induction pkgs arbitrary: s)
  case Nil
  then show ?case by simp
next
  case (Cons P pkgs)
  have one: "in_sync (final (install_one rich sh s P))"
    using Cons.prems by (rule install_one_in_sync)
  show ?case
  proof (cases "install_one rich sh s P")
    case (Done s1)
    with one Cons.IH [of s1] show ?thesis by simp
  next
    case (Raised e s1)
    with one show ?thesis by simp
  qed
qed

subsection \<open>The file and the list stay in step\<close>

lemma those_strs_map: "those_strs (map JStr ps) = Some ps"
  by (induction ps) simp_all

lemma tracked_of_str_list: "tracked_of (str_list ps) = Some ps"
  by (simp add: str_list_def those_strs_map)

lemma in_sync_load:
  "in_sync s \<Longrightarrow> load_tracked_packages (disk s) = Inr (str_list (tracked_packages s))"
  unfolding in_sync_def
proof (elim disjE conjE)
  assume "disk s = NoFile" "tracked_packages s = []"
  then show ?thesis by (simp add: load_tracked_packages_def str_list_def)
next
  assume "disk s = JsonFile (packages_json (tracked_packages s))"
  then show ?thesis by (simp add: load_packages_json)
qed

lemma reachable_inv: "reachable s \<Longrightarrow> distinct (tracked_packages s) \<and> in_sync s"
proof (induction rule: reachable.induct)
  case fresh
  show ?case by (simp add: in_sync_def)
next
  case (by_track s rich P)
  then show ?case by (simp add: track_distinct track_in_sync)
next
  case (by_install s rich sh pkgs)
  then show ?case by (simp add: install_deps_distinct install_deps_in_sync)
next
  case (by_cleanup s rich sh)
  then show ?case by (simp add: cleanup_distinct cleanup_in_sync)
next
  case (restart s j ps)
  from restart.IH have "load_tracked_packages (disk s) = Inr (str_list (tracked_packages s))"
    by (simp add: in_sync_load)
  with restart.hyps(2) have "j = str_list (tracked_packages s)" by simp
  with restart.hyps(3) have "ps = tracked_packages s" by (simp add: tracked_of_str_list)
  with restart.IH show ?case by (simp add: in_sync_def)
qed

subsection \<open>Runs in which every message prints and every command starts\<close>









lemma then_do_Done: "then_do a Done = a"
  by (cases a) simp_all



lemma count_list_le_one:
  "count_list xs x \<le> 1 \<Longrightarrow>
   count_list (if x \<in> set xs then xs else xs @ [x]) x = 1"
  using count_list_0_iff [of xs x] by (cases "x \<in> set xs") auto

subsection \<open>The claims about the tracker\<close>




text \<open>
  C4, as amended. In a tracker state where \<open>P\<close> occurs at most once (every state
  without repetitions is one), tracking \<open>P\<close> twice in succession leaves exactly one
  entry for \<open>P\<close>. In every state the second call changes nothing: it returns the state
  the first call left, so the two calls leave what one call leaves.
\<close>

theorem track_twice_one_entry:
  "(count_list (tracked_packages s) P \<le> 1 \<longrightarrow>
      count_list (tracked_packages (final (then_do (track rich s P) (\<lambda>s1. track rich s1 P)))) P = 1) \<and>
   track rich (final (track rich s P)) P = Done (final (track rich s P)) \<and>
   final (then_do (track rich s P) (\<lambda>s1. track rich s1 P)) = final (track rich s P)"
proof -
  have again: "track rich (final (track rich s P)) P = Done (final (track rich s P))"
    by (rule track_present) (rule track_mem)
  have both: "final (then_do (track rich s P) (\<lambda>s1. track rich s1 P)) = final (track rich s P)"
  proof (cases "track rich s P")
    case (Done s1)
    with again show ?thesis by simp
  next
    case (Raised e s1)
    then show ?thesis by simp
  qed
  have "count_list (tracked_packages s) P \<le> 1 \<Longrightarrow>
        count_list (tracked_packages (final (track rich s P))) P = 1"
    by (simp only: track_tracked count_list_le_one)
  with again both show ?thesis by simp
qed

theorem track_twice_one_entry_witness:
  "count_list
     (tracked_packages
       (final (then_do (track all_print s0 (str ''libbar-dev'')) (\<lambda>s1. track all_print s1 (str ''libbar-dev'')))))
     (str ''libbar-dev'') = 1 \<and>
   count_list
     (tracked_packages
       (final (then_do (track all_print s0 (str ''libfoo-dev'')) (\<lambda>s1. track all_print s1 (str ''libfoo-dev'')))))
     (str ''libfoo-dev'') = 1"
proof -
  have "count_list (tracked_packages s0) (str ''libbar-dev'') \<le> 1"
    "count_list (tracked_packages s0) (str ''libfoo-dev'') \<le> 1"
    by (simp_all add: s0_def str_def)
  with track_twice_one_entry [of s0 "str ''libbar-dev''" all_print]
    track_twice_one_entry [of s0 "str ''libfoo-dev''" all_print]
  show ?thesis by blast
qed

text \<open>
  The claim as stated, for every tracker state, fails in a state that already names
  \<open>P\<close> twice (the state loaded from a file whose array names it twice): both calls
  find \<open>P\<close> present, and two entries remain.
\<close>

theorem track_twice_counterexample:
  "count_list
     (tracked_packages
       (final (then_do (track all_print s_twice (str ''libz-dev'')) (\<lambda>s1. track all_print s1 (str ''libz-dev'')))))
     (str ''libz-dev'') = 2"
  by (simp add: track_def s_twice_def)




text \<open>
  C6, as amended. \<open>_load_tracked_packages\<close> returns the \<open>packages\<close> array of the file
  as it stands: it removes no repetition. So the tracked list has no repetitions at
  the start when the file is absent or holds an array without repetitions; \<open>track\<close>,
  \<open>cleanup\<close> and \<open>install_deps\<close> keep a list without repetitions so, also when they
  raise; and every state the program reaches from an absent file, through any of its
  operations and any number of restarts that load the file it wrote, has no
  repetitions.
\<close>

theorem tracked_distinct_invariant:
  "load_tracked_packages NoFile = Inr (str_list []) \<and>
   load_tracked_packages (JsonFile (JObj [(str ''packages'', str_list ps)])) = Inr (str_list ps) \<and>
   tracked_of (str_list ps) = Some ps \<and>
   (distinct (tracked_packages s) \<longrightarrow>
      distinct (tracked_packages (final (track rich s P))) \<and>
      distinct (tracked_packages (final (cleanup rich sh s))) \<and>
      distinct (tracked_packages (final (install_deps rich sh s pkgs)))) \<and>
   (reachable s \<longrightarrow> distinct (tracked_packages s))"
  using load_packages_json [of ps]
  by (simp add: tracked_of_str_list track_distinct cleanup_distinct install_deps_distinct
      reachable_inv packages_json_def)
    (simp add: load_tracked_packages_def str_list_def)

theorem tracked_distinct_invariant_witness:
  "distinct (tracked_packages (final (track all_print s0 (str ''libfoo-dev'')))) \<and>
   distinct (tracked_packages (final (cleanup all_print apt_fails s0))) \<and>
   distinct (tracked_packages
     (final (install_deps all_print apt_fails s0 [str ''libz-dev'', str ''libz-dev'']))) \<and>
   distinct (tracked_packages (final (track all_print s_new (str ''libz-dev''))))"
proof -
  have d: "distinct (tracked_packages s0)" by (simp add: s0_def)
  have "reachable s_new" unfolding s_new_def by (rule fresh)
  then have r: "reachable (final (track all_print s_new (str ''libz-dev'')))"
    by (rule by_track)
  from d r show ?thesis
    using tracked_distinct_invariant
      [of "[]" s0 all_print "str ''libfoo-dev''" apt_fails "[str ''libz-dev'', str ''libz-dev'']"]
      tracked_distinct_invariant
      [of "[]" "final (track all_print s_new (str ''libz-dev''))" all_print
          "str ''libfoo-dev''" apt_fails "[]"]
    by simp
qed

text \<open>
  The claim as stated fails for a file whose array names a package twice: the load
  succeeds and the list it returns has the repetition.
\<close>

theorem load_duplicates_counterexample:
  "load_tracked_packages
     (JsonFile (JObj [(str ''packages'', JArr [JStr (str ''libz-dev''), JStr (str ''libz-dev'')])]))
     = Inr (JArr [JStr (str ''libz-dev''), JStr (str ''libz-dev'')]) \<and>
   tracked_of (JArr [JStr (str ''libz-dev''), JStr (str ''libz-dev'')])
     = Some [str ''libz-dev'', str ''libz-dev''] \<and>
   \<not> distinct [str ''libz-dev'', str ''libz-dev'']"
  by (simp add: load_tracked_packages_def dict_get_def)

text \<open>
  C7, as amended. With no file the load gives the empty array. When the file holds a
  JSON object the load never raises, and it gives the empty array when the object has
  no member \<open>packages\<close>. When the file holds JSON that is not an object (an array, a
  string, a number, a boolean, null) the load raises \<open>AttributeError\<close>.
\<close>

theorem load_permissive_on_objects:
  "load_tracked_packages NoFile = Inr (JArr []) \<and>
   (str ''packages'' \<notin> fst ` set kvs \<longrightarrow>
      load_tracked_packages (JsonFile (JObj kvs)) = Inr (JArr [])) \<and>
   (\<exists>j. load_tracked_packages (JsonFile (JObj kvs)) = Inr j) \<and>
   (\<not> is_object v \<longrightarrow> load_tracked_packages (JsonFile v) = Inl AttributeError)"
proof -
  have "str ''packages'' \<notin> fst ` set kvs \<Longrightarrow> map_of (rev kvs) (str ''packages'') = None"
    by (simp add: map_of_eq_None_iff)
  moreover have "\<not> is_object v \<Longrightarrow> load_tracked_packages (JsonFile v) = Inl AttributeError"
    by (cases v) (simp_all add: load_tracked_packages_def)
  ultimately show ?thesis
    by (simp add: load_tracked_packages_def dict_get_def)
qed

theorem load_permissive_on_objects_witness:
  "load_tracked_packages (JsonFile (JObj [(str ''version'', JNum 2)])) = Inr (JArr []) \<and>
   load_tracked_packages (JsonFile (JNum 42)) = Inl AttributeError"
  using load_permissive_on_objects [of "[(str ''version'', JNum 2)]" "JNum 42"]
  by (simp add: str_def)

text \<open>The claim as stated fails for a file holding the well-formed JSON text \<open>[]\<close>.\<close>

theorem load_non_object_counterexample:
  "load_tracked_packages (JsonFile (JArr [])) = Inl AttributeError"
  by (simp add: load_tracked_packages_def)

text \<open>
  C10. When \<open>P\<close> is tracked already, \<open>track P\<close> returns the state it was given: the
  list, the file and the events (so no directory made, no file written, nothing
  printed) are unchanged. When \<open>P\<close> is not tracked, the new list is the old one with
  \<open>P\<close> appended, the old entries in their places, and the file is written with the
  new list; the message is printed last, so list and file are so whether the console
  accepts the message or raises.
\<close>

theorem track_frame:
  "(P \<in> set (tracked_packages s) \<longrightarrow> track rich s P = Done s) \<and>
   (P \<notin> set (tracked_packages s) \<longrightarrow>
      tracked_packages (final (track rich s P)) = tracked_packages s @ [P] \<and>
      take (length (tracked_packages s)) (tracked_packages (final (track rich s P)))
        = tracked_packages s \<and>
      disk (final (track rich s P))
        = JsonFile (JObj [(str ''packages'', str_list (tracked_packages s @ [P]))]) \<and>
      (rich (str ''[green]Tracked:[/green] '' @ P) \<longrightarrow>
         track rich s P = Done (final (track rich s P)) \<and>
         trace (final (track rich s P)) =
           trace s @ [Mkdir, Wrote (JObj [(str ''packages'', str_list (tracked_packages s @ [P]))]),
                      Printed (str ''[green]Tracked:[/green] '' @ P)]) \<and>
      (\<not> rich (str ''[green]Tracked:[/green] '' @ P) \<longrightarrow>
         track rich s P = Raised MarkupError (final (track rich s P)) \<and>
         trace (final (track rich s P)) =
           trace s @ [Mkdir, Wrote (JObj [(str ''packages'', str_list (tracked_packages s @ [P]))])]))"
  by (simp add: track_def console_print_def save_tracked_packages_def packages_json_def
      tracked_msg_def)

theorem track_frame_witness:
  "track all_print s0 (str ''libfoo-dev'') = Done s0 \<and>
   tracked_packages (final (track all_print s0 (str ''libbar-dev'')))
     = [str ''libfoo-dev'', str ''libbar-dev''] \<and>
   disk (final (track all_print s0 (str ''libbar-dev''))) =
     JsonFile (JObj [(str ''packages'', JArr [JStr (str ''libfoo-dev''), JStr (str ''libbar-dev'')])])"
proof -
  have "str ''libfoo-dev'' \<in> set (tracked_packages s0)"
    "str ''libbar-dev'' \<notin> set (tracked_packages s0)"
    by (simp_all add: s0_def str_def)
  then show ?thesis
    using track_frame [of "str ''libfoo-dev''" s0 all_print]
      track_frame [of "str ''libbar-dev''" s0 all_print]
    by (simp add: s0_def str_list_def)
qed

section \<open>Properties of the scanner and the resolver\<close>

subsection \<open>Matching\<close>

lemmas char_class_defs =
  is_word_def is_word_or_hyphen_def is_quote_def is_ascii_def
  ascii_lowercase_def ascii_uppercase_def digits_def str_def

lemma rev_upt_greedy: "0 < n \<Longrightarrow> rev [Suc 0..<Suc n] = n # rev [Suc 0..<n]"
  by simp

lemma first_some_greedy:
  "0 < n \<Longrightarrow> first_some f (rev [Suc 0..<Suc n]) =
     (case f n of Some y \<Rightarrow> Some y | None \<Rightarrow> first_some f (rev [Suc 0..<n]))"
  by (simp only: rev_upt_greedy first_some.simps)

lemma first_some_all_None: "(\<And>x. x \<in> set xs \<Longrightarrow> f x = None) \<Longrightarrow> first_some f xs = None"
  by (induction xs) simp_all

lemma take_takeWhile: "take (length (takeWhile P s)) s = takeWhile P s"
  by (induction s) simp_all

lemma drop_takeWhile: "drop (length (takeWhile P s)) s = dropWhile P s"
  by (induction s) simp_all

lemma rmatch_group_plus_last:
  "rmatch [GroupPlus P] s g =
     (if takeWhile P s = [] then None else Some (takeWhile P s, dropWhile P s))"
proof (cases "takeWhile P s = []")
  case True
  then show ?thesis by simp
next
  case False
  then have "0 < length (takeWhile P s)" by simp
  then show ?thesis
    using False by (simp add: first_some_greedy take_takeWhile drop_takeWhile del: upt_Suc)
qed

lemma rmatch_lit_plus:
  "rmatch [Lit l, GroupPlus P] s g =
     (if prefix l s \<and> takeWhile P (drop (length l) s) \<noteq> []
      then Some (takeWhile P (drop (length l) s), dropWhile P (drop (length l) s))
      else None)"
  by (simp add: rmatch_group_plus_last del: rmatch.simps(5))

lemma takeWhile_ends_run: "ends_run P t \<Longrightarrow> takeWhile P t = []"
  by (cases t) (simp_all add: ends_run_def)

lemma dropWhile_ends_run: "ends_run P t \<Longrightarrow> dropWhile P t = t"
  by (cases t) (simp_all add: ends_run_def)

lemma takeWhile_run: "list_all P x \<Longrightarrow> ends_run P t \<Longrightarrow> takeWhile P (x @ t) = x"
  by (induction x) (simp_all add: takeWhile_ends_run)

lemma dropWhile_run: "list_all P x \<Longrightarrow> ends_run P t \<Longrightarrow> dropWhile P (x @ t) = t"
  by (induction x) (simp_all add: dropWhile_ends_run)

lemma findall_match:
  "rmatch r s [] = Some (g, rest) \<Longrightarrow> length rest < length s \<Longrightarrow>
   findall r s = g # findall r rest"
  by (cases s) simp_all

lemma findall_gap:
  assumes "\<And>s. \<not> Q s \<Longrightarrow> rmatch r s [] = None"
  shows "\<not> begins_in_front Q gap t \<Longrightarrow> findall r (gap @ t) = findall r t"
  by (induction gap) (simp_all add: assms)

lemma findall_rest:
  assumes "\<And>s. \<not> Q s \<Longrightarrow> rmatch r s [] = None" and "\<not> Q []"
    and "\<not> begins_in_front Q rest []"
  shows "findall r rest = []"
proof -
  have "findall r (rest @ []) = findall r []"
    using assms(1,3) by (rule findall_gap)
  moreover have "rmatch r [] [] = None"
    using assms(2) by (rule assms(1))
  ultimately show ?thesis by simp
qed

subsection \<open>The calls of a CMake file\<close>

lemma not_starts_call_empty: "\<not> starts_call uw []"
  by (simp add: starts_call_def str_def)

lemma rmatch_not_call: "\<not> starts_call uw s \<Longrightarrow> rmatch (cmake_pattern uw) s [] = None"
  unfolding cmake_pattern_def starts_call_def
  by (simp only: rmatch_lit_plus) (auto split: list.splits)

lemma rmatch_call:
  assumes "x \<noteq> []" "list_all (is_word uw) x" "ends_run (is_word uw) t"
  shows "rmatch (cmake_pattern uw) (str ''find_package('' @ x @ t) [] = Some (x, t)"
  unfolding cmake_pattern_def
  using assms by (simp only: rmatch_lit_plus) (simp add: takeWhile_run dropWhile_run)

lemma findall_call:
  assumes "x \<noteq> []" "list_all (is_word uw) x" "ends_run (is_word uw) t"
  shows "findall (cmake_pattern uw) (str ''find_package('' @ x @ t) = x # findall (cmake_pattern uw) t"
  by (rule findall_match [OF rmatch_call [OF assms]]) (simp add: str_def)

lemma findall_cmake_text:
  "cmake_calls_ok uw calls rest \<Longrightarrow>
   findall (cmake_pattern uw) (cmake_text calls rest) = map snd calls"
proof (induction calls)
  case Nil
  then show ?case
    using findall_rest [of "starts_call uw" "cmake_pattern uw" rest]
    by (simp add: rmatch_not_call not_starts_call_empty)
next
  case (Cons call calls)
  obtain gap x where call: "call = (gap, x)" by (cases call)
  let ?t = "cmake_text calls rest"
  from Cons.prems call have ok:
    "\<not> begins_in_front (starts_call uw) gap (str ''find_package('' @ x @ ?t)"
    "x \<noteq> []" "list_all (is_word uw) x" "ends_run (is_word uw) ?t" "cmake_calls_ok uw calls rest"
    by simp_all
  have "findall (cmake_pattern uw) (gap @ (str ''find_package('' @ x @ ?t))
      = findall (cmake_pattern uw) (str ''find_package('' @ x @ ?t)"
    using ok(1) by (rule findall_gap [rotated]) (rule rmatch_not_call)
  also have "\<dots> = x # findall (cmake_pattern uw) ?t"
    by (rule findall_call [OF ok(2,3,4)])
  finally show ?case using Cons.IH [OF ok(5)] call by simp
qed

subsection \<open>Scanning a tree\<close>

lemma set_set_update: "set (set_update deps xs) = set deps \<union> set xs"
  by (auto simp: set_update_def)

lemma distinct_set_update: "distinct deps \<Longrightarrow> distinct (set_update deps xs)"
  by (simp add: set_update_def)

lemma parse_cmake:
  "parse_dependencies uw (str ''CMakeLists.txt'') content
     = set_update [] (findall (cmake_pattern uw) content)"
  by (simp add: parse_dependencies_def patterns_def) (simp add: str_def)

lemma scan_files_filter: "scan_files uw fs deps = scan_files uw (filter is_build_file fs) deps"
  by (induction uw fs deps rule: scan_files.induct) simp_all

lemma analyze_opened:
  "fs path = Some tree \<Longrightarrow> analyze uw fs path = scan_files uw (opened_files tree) []"
  unfolding analyze_def opened_files_def by (simp add: scan_files_filter [symmetric])

text \<open>
  C1, as amended. Take a tree in which the only build file that \<open>analyze\<close> opens is
  one \<open>CMakeLists.txt\<close>, and let its calls \<open>find_package(X)\<close> be \<open>N\<close> with names all
  different: the text \<open>find_package(\<close> with the name directly after it, a run of word
  characters (of any alphabet), in any order and with any text before, between and
  after the calls in which no further call begins. Then \<open>analyze\<close> returns, without
  error, exactly those \<open>N\<close> names, once each. Files with other names anywhere in the
  tree do not matter.
\<close>

theorem analyze_cmake_calls:
  assumes "fs path = Some tree"
    and "opened_files tree = [File (str ''CMakeLists.txt'') (cmake_text calls rest)]"
    and "cmake_calls_ok uw calls rest"
    and "distinct (map snd calls)"
  shows "\<exists>deps. analyze uw fs path = Inr deps \<and> set deps = set (map snd calls) \<and>
           distinct deps \<and> length deps = length calls"
proof -
  let ?deps = "set_update [] (map snd calls)"
  have b: "str ''CMakeLists.txt'' \<in> set build_files"
    by (simp add: build_files_def)
  have "analyze uw fs path = scan_files uw [File (str ''CMakeLists.txt'') (cmake_text calls rest)] []"
    using assms(1,2) by (simp add: analyze_opened)
  also have "\<dots> = Inr (set_update [] (parse_dependencies uw (str ''CMakeLists.txt'') (cmake_text calls rest)))"
    using b by simp
  also have "parse_dependencies uw (str ''CMakeLists.txt'') (cmake_text calls rest) = ?deps"
    using assms(3) by (simp add: parse_cmake findall_cmake_text)
  finally have a: "analyze uw fs path = Inr (set_update [] ?deps)" .
  have s: "set (set_update [] ?deps) = set (map snd calls)"
    by (simp add: set_set_update)
  have d: "distinct (set_update [] ?deps)"
    by (simp add: distinct_set_update)
  have "length (set_update [] ?deps) = card (set (map snd calls))"
    using d s distinct_card by metis
  also have "\<dots> = length calls"
    using assms(4) distinct_card by fastforce
  finally show ?thesis using a s d by blast
qed

text \<open>
  The scenario of the test: \<open>find_package(OpenSSL)\<close> and \<open>find_package(ZLIB)\<close>, each on
  an indented line of its own, in a tree that also holds a README and a documentation
  directory; the result is the set of \<open>OpenSSL\<close> and \<open>ZLIB\<close>. And a file with another
  command before the calls, an argument after a name and a name with an accented
  letter.
\<close>

theorem analyze_cmake_calls_witness:
  "map_sum id set (analyze latin_letters project_fs (str ''proj'')) = Inr {str ''OpenSSL'', str ''ZLIB''} \<and>
   map_sum id set (analyze latin_letters cafe_fs (str ''proj'')) = Inr {str ''Caf'' @ [233], str ''ZLIB''}"
proof -
  have 1: "project_fs (str ''proj'') = Some project_tree"
    by (simp add: project_fs_def)
  have 2: "opened_files project_tree
      = [File (str ''CMakeLists.txt'') (cmake_text cmake_example (str '')'' @ nl @ str ''    ''))]"
    by code_simp
  have 3: "cmake_calls_ok latin_letters cmake_example (str '')'' @ nl @ str ''    '')"
    by code_simp
  have 4: "distinct (map snd cmake_example)"
    by code_simp
  from analyze_cmake_calls [of project_fs "str ''proj''" project_tree cmake_example
      "str '')'' @ nl @ str ''    ''" latin_letters, OF 1 2 3 4]
  obtain deps where "analyze latin_letters project_fs (str ''proj'') = Inr deps"
    "set deps = set (map snd cmake_example)"
    by blast
  then have first: "map_sum id set (analyze latin_letters project_fs (str ''proj''))
      = Inr {str ''OpenSSL'', str ''ZLIB''}"
    by (simp add: cmake_example_def)
  have 5: "cafe_fs (str ''proj'') = Some cafe_tree"
    by (simp add: cafe_fs_def)
  have 6: "opened_files cafe_tree = [File (str ''CMakeLists.txt'') (cmake_text cafe_calls (str '')''))]"
    by code_simp
  have 7: "cmake_calls_ok latin_letters cafe_calls (str '')'')"
    by code_simp
  have 8: "distinct (map snd cafe_calls)"
    by code_simp
  from analyze_cmake_calls [of cafe_fs "str ''proj''" cafe_tree cafe_calls "str '')''"
      latin_letters, OF 5 6 7 8]
  obtain deps' where "analyze latin_letters cafe_fs (str ''proj'') = Inr deps'"
    "set deps' = set (map snd cafe_calls)"
    by blast
  then have "map_sum id set (analyze latin_letters cafe_fs (str ''proj''))
      = Inr {str ''Caf'' @ [233], str ''ZLIB''}"
    by (simp add: cafe_calls_def)
  with first show ?thesis by simp
qed

text \<open>
  C9. For a path at which the file system has nothing, \<open>analyze\<close> returns the empty
  list of dependencies and raises nothing.
\<close>

theorem analyze_missing_path:
  "fs path = None \<Longrightarrow> analyze uw fs path = Inr []"
  by (simp add: analyze_def)

theorem analyze_missing_path_witness:
  "analyze latin_letters project_fs (str ''no/such/dir'') = Inr []"
  using analyze_missing_path [of project_fs "str ''no/such/dir''" latin_letters]
  by (simp add: project_fs_def str_def)

text \<open>
  The claim as stated fails in two ways. For every tree that contains such a
  \<open>CMakeLists.txt\<close>: \<open>analyze\<close> returns the union over all build files of the tree,
  and beside a \<open>Makefile\<close> with \<open>-lm\<close> the result for the two calls has a third name.
  For every name \<open>X\<close>: the name found ends at the first character that is not a word
  character, so of \<open>find_package(yaml-cpp)\<close> it is \<open>yaml\<close>.
\<close>

theorem analyze_cmake_counterexample:
  "map_sum id set (analyze latin_letters mixed_fs (str ''proj''))
     = Inr {str ''OpenSSL'', str ''ZLIB'', str ''m''} \<and>
   str ''m'' \<notin> {str ''OpenSSL'', str ''ZLIB''} \<and>
   map_sum id set (analyze latin_letters hyphen_fs (str ''proj''))
     = Inr {str ''yaml'', str ''ZLIB''} \<and>
   str ''yaml-cpp'' \<notin> {str ''yaml'', str ''ZLIB''}"
proof -
  have "analyze latin_letters mixed_fs (str ''proj'') = Inr [str ''m'', str ''OpenSSL'', str ''ZLIB'']"
    by code_simp
  moreover have "analyze latin_letters hyphen_fs (str ''proj'') = Inr [str ''yaml'', str ''ZLIB'']"
    by code_simp
  ultimately show ?thesis by (auto simp: str_def)
qed

subsection \<open>The resolver\<close>

lemma suggest_fold_map_of:
  "map_of (fold (\<lambda>dep m. AList.update dep (f dep) m) deps acc) x =
     (if x \<in> set deps then Some (f x) else map_of acc x)"
  by (induction deps arbitrary: acc) (simp_all add: update_conv')

lemma suggest_fold_distinct:
  "distinct (map fst acc) \<Longrightarrow>
   distinct (map fst (fold (\<lambda>dep m. AList.update dep (f dep) m) deps acc))"
  by (induction deps arbitrary: acc) (simp_all add: distinct_update)

lemma suggest_fold_keys:
  "fst ` set (fold (\<lambda>dep m. AList.update dep (f dep) m) deps acc) = fst ` set acc \<union> set deps"
  by (induction deps arbitrary: acc) (simp_all add: dom_update)

text \<open>
  C2. For every list of dependency names and every name \<open>X\<close>, of any characters, the
  mapping returned by \<open>suggest_apt_packages\<close> sends \<open>X\<close> to
  \<open>"lib" + lower(X) + "-dev"\<close> when \<open>X\<close> is among the names and has no entry for \<open>X\<close>
  otherwise; no key occurs twice, and the keys are exactly the names given. The
  function takes no state and cannot fail: it is a total function of its argument, so
  two calls with the same argument give the same mapping.
\<close>

theorem suggest_apt_packages_rule:
  "map_of (suggest_apt_packages ul deps) X =
     (if X \<in> set deps then Some (str ''lib'' @ lower ul X @ str ''-dev'') else None) \<and>
   distinct (map fst (suggest_apt_packages ul deps)) \<and>
   set (map fst (suggest_apt_packages ul deps)) = set deps"
  unfolding suggest_apt_packages_def
  by (simp add: suggest_fold_map_of suggest_fold_distinct suggest_fold_keys)

theorem suggest_apt_packages_rule_witness:
  "map_of (suggest_apt_packages (\<lambda>s. s) [str ''OpenSSL'', str ''ZLIB'', str ''OpenSSL'']) (str ''OpenSSL'')
     = Some (str ''libopenssl-dev'') \<and>
   map_of (suggest_apt_packages (\<lambda>s. s) [str ''OpenSSL'', str ''ZLIB'', str ''OpenSSL'']) (str ''ZLIB'')
     = Some (str ''libzlib-dev'') \<and>
   length (suggest_apt_packages (\<lambda>s. s) [str ''OpenSSL'', str ''ZLIB'', str ''OpenSSL'']) = 2"
proof -
  have l: "lower (\<lambda>s. s) (str ''OpenSSL'') = str ''openssl''"
    "lower (\<lambda>s. s) (str ''ZLIB'') = str ''zlib''"
    by code_simp+
  have n: "length (suggest_apt_packages (\<lambda>s. s) [str ''OpenSSL'', str ''ZLIB'', str ''OpenSSL'']) = 2"
    by code_simp
  have m: "str ''OpenSSL'' \<in> set [str ''OpenSSL'', str ''ZLIB'', str ''OpenSSL'']"
    "str ''ZLIB'' \<in> set [str ''OpenSSL'', str ''ZLIB'', str ''OpenSSL'']"
    by simp_all
  have a: "str ''lib'' @ str ''openssl'' @ str ''-dev'' = str ''libopenssl-dev''"
    "str ''lib'' @ str ''zlib'' @ str ''-dev'' = str ''libzlib-dev''"
    by (simp_all add: str_def)
  show ?thesis
    using suggest_apt_packages_rule [of "\<lambda>s. s" "[str ''OpenSSL'', str ''ZLIB'', str ''OpenSSL'']" "str ''OpenSSL''"]
      suggest_apt_packages_rule [of "\<lambda>s. s" "[str ''OpenSSL'', str ''ZLIB'', str ''OpenSSL'']" "str ''ZLIB''"]
    by (simp only: m if_True l a n)
qed

subsection \<open>The list of a packaging script\<close>

lemma first_some_map: "first_some f (map h xs) = first_some (\<lambda>x. f (h x)) xs"
  by (induction xs) (simp_all split: option.splits)

lemma first_some_lazy:
  "first_some f [0..<Suc n] =
     (case f 0 of Some y \<Rightarrow> Some y | None \<Rightarrow> first_some (\<lambda>k. f (Suc k)) [0..<n])"
proof -
  have "[0..<Suc n] = 0 # map Suc [0..<n]"
    by (simp only: upt_conv_Cons [of 0 "Suc n"] map_Suc_upt zero_less_Suc)
  then show ?thesis by (simp only: first_some.simps first_some_map)
qed

lemma str_closing_bracket: "str '']'' = [closing_bracket]"
  by (simp add: str_def closing_bracket_def)

lemma rmatch_close:
  "rmatch [Lit (str '']'')] s g =
     (case s of [] \<Rightarrow> None | c # t \<Rightarrow> if c = closing_bracket then Some (g, t) else None)"
  unfolding str_closing_bracket by (cases s) auto

lemma lazy_until_bracket:
  "first_some (\<lambda>n. rmatch [Lit (str '']'')] (drop n s) (acc @ take n s)) [0..<Suc (length s)] =
     (if closing_bracket \<in> set s
      then Some (acc @ takeWhile (\<lambda>c. c \<noteq> closing_bracket) s,
                 tl (dropWhile (\<lambda>c. c \<noteq> closing_bracket) s))
      else None)"
proof (induction s arbitrary: acc)
  case Nil
  show ?case by (simp add: rmatch_close del: rmatch.simps)
next
  case (Cons c cs)
  show ?case
  proof (cases "c = closing_bracket")
    case True
    then show ?thesis
      by (simp only: first_some_lazy length_Cons) (simp add: rmatch_close del: rmatch.simps)
  next
    case False
    have "first_some (\<lambda>n. rmatch [Lit (str '']'')] (drop n (c # cs)) (acc @ take n (c # cs)))
            [0..<Suc (length (c # cs))]
        = first_some (\<lambda>k. rmatch [Lit (str '']'')] (drop k cs) ((acc @ [c]) @ take k cs))
            [0..<Suc (length cs)]"
      using False
      by (simp only: first_some_lazy [of _ "Suc (length cs)"] length_Cons)
        (simp add: rmatch_close del: rmatch.simps)
    then show ?thesis using False by (simp only: Cons.IH) simp
  qed
qed

lemma rmatch_lazy_bracket:
  "rmatch [GroupLazyAny, Lit (str '']'')] s g =
     (if closing_bracket \<in> set s
      then Some (takeWhile (\<lambda>c. c \<noteq> closing_bracket) s, tl (dropWhile (\<lambda>c. c \<noteq> closing_bracket) s))
      else None)"
  using lazy_until_bracket [of s "[]"] by (simp del: upt_Suc rmatch.simps(2) add: rmatch.simps(6))

lemma rmatch_setup_list:
  assumes "closing_bracket \<notin> set body"
  shows "rmatch setup_pattern (str ''install_requires=['' @ body @ str '']'' @ post) []
       = Some (body, post)"
proof -
  have e: "ends_run (\<lambda>c. c \<noteq> closing_bracket) (str '']'' @ post)"
    by (simp add: ends_run_def str_closing_bracket)
  have b: "list_all (\<lambda>c. c \<noteq> closing_bracket) body"
    using assms by (auto simp: list_all_iff)
  have "rmatch setup_pattern (str ''install_requires=['' @ body @ str '']'' @ post) []
      = rmatch [GroupLazyAny, Lit (str '']'')] (body @ str '']'' @ post) []"
    by (simp add: setup_pattern_def del: rmatch.simps(6) upt_Suc)
  also have "\<dots> = Some (body, post)"
    by (simp only: rmatch_lazy_bracket takeWhile_run [OF b e] dropWhile_run [OF b e])
      (simp add: str_closing_bracket)
  finally show ?thesis .
qed

lemma findall_setup_list:
  assumes "closing_bracket \<notin> set body"
  shows "findall setup_pattern (str ''install_requires=['' @ body @ str '']'' @ post)
       = body # findall setup_pattern post"
  by (rule findall_match [OF rmatch_setup_list [OF assms]]) (simp add: str_def)

lemma rmatch_setup_no_prefix:
  "\<not> prefix (str ''install_requires=['') s \<Longrightarrow> rmatch setup_pattern s [] = None"
  by (simp add: setup_pattern_def)

subsection \<open>The quoted tokens of a list\<close>

lemma quote_not_token_char: "is_quote c \<Longrightarrow> \<not> is_word_or_hyphen uw c"
  by (auto simp: char_class_defs)

lemma not_starts_token_empty: "\<not> starts_token uw []"
  by (simp add: starts_token_def)

lemma rmatch_quote: "rmatch [Cls is_quote] s g = (case s of [] \<Rightarrow> None | c # t \<Rightarrow> if is_quote c then Some (g, t) else None)"
  by (cases s) simp_all

lemma rmatch_no_quote:
  "\<not> (case u of [] \<Rightarrow> False | q' # _ \<Rightarrow> is_quote q') \<Longrightarrow> rmatch [Cls is_quote] u g = None"
  by (cases u) simp_all

lemma rmatch_token_tail:
  "rmatch [GroupPlus P, Cls is_quote] t g =
     first_some (\<lambda>n. rmatch [Cls is_quote] (drop n t) (take n t))
       (rev [Suc 0..<Suc (length (takeWhile P t))])"
  by (simp del: upt_Suc rmatch.simps(4))

lemma token_tail_inside:
  assumes "\<forall>c. P c \<longrightarrow> \<not> is_quote c" "n < length (takeWhile P t)"
  shows "rmatch [Cls is_quote] (drop n t) g = None"
proof -
  have lt: "n < length t"
    using assms(2) length_takeWhile_le [of P t] by simp
  have "t ! n = takeWhile P t ! n"
    using assms(2) by (simp add: takeWhile_nth)
  also have "\<dots> \<in> set (takeWhile P t)"
    using assms(2) by simp
  finally have "P (t ! n)" by (rule set_takeWhileD [THEN conjunct2])
  then have "\<not> is_quote (t ! n)" using assms(1) by simp
  moreover have "drop n t = t ! n # drop (Suc n) t"
    using lt by (simp add: Cons_nth_drop_Suc)
  ultimately show ?thesis by (simp add: rmatch_quote)
qed

lemma rmatch_token_tail_fail:
  assumes "\<forall>c. P c \<longrightarrow> \<not> is_quote c"
    and "rmatch [Cls is_quote] (dropWhile P t) (takeWhile P t) = None"
  shows "rmatch [GroupPlus P, Cls is_quote] t g = None"
  unfolding rmatch_token_tail
proof (rule first_some_all_None)
  fix n
  assume "n \<in> set (rev [Suc 0..<Suc (length (takeWhile P t))])"
  then have n: "n \<le> length (takeWhile P t)" by auto
  show "rmatch [Cls is_quote] (drop n t) (take n t) = None"
  proof (cases "n = length (takeWhile P t)")
    case True
    then show ?thesis using assms(2) by (simp add: take_takeWhile drop_takeWhile)
  next
    case False
    with n have "n < length (takeWhile P t)" by simp
    with assms(1) show ?thesis by (rule token_tail_inside)
  qed
qed

lemma rmatch_not_token: "\<not> starts_token uw s \<Longrightarrow> rmatch (token_pattern uw) s [] = None"
proof (cases s)
  case Nil
  then show ?thesis by (simp add: token_pattern_def)
next
  case (Cons q t)
  assume n: "\<not> starts_token uw s"
  show ?thesis
  proof (cases "is_quote q")
    case False
    with Cons show ?thesis by (simp add: token_pattern_def)
  next
    case True
    let ?P = "is_word_or_hyphen uw"
    have nq: "\<forall>c. ?P c \<longrightarrow> \<not> is_quote c"
      using quote_not_token_char by blast
    from n Cons True have
      no: "\<not> (takeWhile ?P t \<noteq> [] \<and> (case dropWhile ?P t of [] \<Rightarrow> False | q' # _ \<Rightarrow> is_quote q'))"
      by (simp add: starts_token_def)
    have "rmatch [GroupPlus ?P, Cls is_quote] t [] = None"
    proof (cases "takeWhile ?P t = []")
      case True
      then show ?thesis by (simp add: rmatch_token_tail del: rmatch.simps)
    next
      case False
      with no have "\<not> (case dropWhile ?P t of [] \<Rightarrow> False | q' # _ \<Rightarrow> is_quote q')"
        by simp
      then have "rmatch [Cls is_quote] (dropWhile ?P t) (takeWhile ?P t) = None"
        by (rule rmatch_no_quote)
      with nq show ?thesis by (rule rmatch_token_tail_fail)
    qed
    with Cons True show ?thesis
      by (simp add: token_pattern_def del: rmatch.simps(5))
  qed
qed

lemma rmatch_token:
  assumes "is_quote q" "tok \<noteq> []" "list_all (is_word_or_hyphen uw) tok" "is_quote q'"
  shows "rmatch (token_pattern uw) (q # tok @ q' # t) [] = Some (tok, t)"
proof -
  have e: "ends_run (is_word_or_hyphen uw) (q' # t)"
    using assms(4) by (simp add: ends_run_def quote_not_token_char)
  have tw: "takeWhile (is_word_or_hyphen uw) (tok @ q' # t) = tok"
    by (rule takeWhile_run [OF assms(3) e])
  have n: "0 < length tok" using assms(2) by simp
  have "rmatch [GroupPlus (is_word_or_hyphen uw), Cls is_quote] (tok @ q' # t) [] = Some (tok, t)"
    using assms(4) by (simp only: rmatch_token_tail tw first_some_greedy [OF n]) (simp add: rmatch_quote)
  with assms(1) show ?thesis
    by (simp add: token_pattern_def del: rmatch.simps(5))
qed

lemma findall_token:
  assumes "is_quote q" "tok \<noteq> []" "list_all (is_word_or_hyphen uw) tok" "is_quote q'"
  shows "findall (token_pattern uw) (q # tok @ q' # t) = tok # findall (token_pattern uw) t"
  by (rule findall_match [OF rmatch_token [OF assms]]) simp

lemma findall_list_text:
  "list_tokens_ok uw toks rest \<Longrightarrow>
   findall (token_pattern uw) (list_text toks rest) = map token_text toks"
proof (induction toks)
  case Nil
  then show ?case
    using findall_rest [of "starts_token uw" "token_pattern uw" rest]
    by (simp add: rmatch_not_token not_starts_token_empty)
next
  case (Cons item toks)
  obtain gap q tok q' where item: "item = (gap, q, tok, q')" by (cases item)
  let ?t = "list_text toks rest"
  from Cons.prems item have ok:
    "\<not> begins_in_front (starts_token uw) gap (q # tok @ q' # ?t)"
    "is_quote q" "tok \<noteq> []" "list_all (is_word_or_hyphen uw) tok" "is_quote q'"
    "list_tokens_ok uw toks rest"
    by simp_all
  have "findall (token_pattern uw) (gap @ (q # tok @ q' # ?t))
      = findall (token_pattern uw) (q # tok @ q' # ?t)"
    using ok(1) by (rule findall_gap [rotated]) (rule rmatch_not_token)
  also have "\<dots> = tok # findall (token_pattern uw) ?t"
    by (rule findall_token [OF ok(2,3,4,5)])
  finally show ?case using Cons.IH [OF ok(6)] item by (simp add: token_text_def)
qed

lemma set_fold_set_update:
  "set (fold (\<lambda>m deps. set_update deps (h m)) ms deps) = set deps \<union> (\<Union>m \<in> set ms. set (h m))"
  by (induction ms arbitrary: deps) (auto simp: set_set_update)

lemma parse_setup:
  "parse_dependencies uw (str ''setup.py'') content =
     fold (\<lambda>m deps. set_update deps (findall (token_pattern uw) m)) (findall setup_pattern content) []"
  by (simp add: parse_dependencies_def patterns_def) (simp add: str_def)

lemma parse_setup_set:
  "findall setup_pattern content = b # findall setup_pattern post \<Longrightarrow>
   set (parse_dependencies uw (str ''setup.py'') content)
     = set (findall (token_pattern uw) b) \<union> set (parse_dependencies uw (str ''setup.py'') post)"
  by (simp add: parse_setup set_fold_set_update set_set_update)

text \<open>
  C8, as amended. Take the text of a \<open>setup.py\<close> in which \<open>install_requires=[\<close> occurs
  first after \<open>pre\<close>, followed by \<open>body\<close>, which holds no closing bracket, then the
  closing bracket and \<open>post\<close>. Let the quoted tokens of \<open>body\<close> be \<open>toks\<close>, each a
  non-empty run of word characters and hyphens directly between two quote characters,
  found from left to right, with any text before, between and after them in which no
  further such token begins (a quoted text with a version specifier is such text).
  The first stage isolates \<open>body\<close>, and goes on in \<open>post\<close>; the second stage extracts
  every token of \<open>toks\<close>, in order, and nothing else; and the dependencies returned are
  those tokens together with what the text after the list yields.
\<close>

theorem setup_list_tokens:
  assumes "\<not> begins_in_front (prefix (str ''install_requires=['')) pre
             (str ''install_requires=['' @ body @ str '']'' @ post)"
    and "closing_bracket \<notin> set body"
    and "body = list_text toks rest"
    and "list_tokens_ok uw toks rest"
  shows "findall setup_pattern (pre @ str ''install_requires=['' @ body @ str '']'' @ post)
           = body # findall setup_pattern post \<and>
         findall (token_pattern uw) body = map token_text toks \<and>
         set (parse_dependencies uw (str ''setup.py'')
                (pre @ str ''install_requires=['' @ body @ str '']'' @ post))
           = set (map token_text toks) \<union> set (parse_dependencies uw (str ''setup.py'') post)"
proof -
  have "findall setup_pattern (pre @ str ''install_requires=['' @ body @ str '']'' @ post)
      = findall setup_pattern (str ''install_requires=['' @ body @ str '']'' @ post)"
    using assms(1) by (rule findall_gap [rotated]) (rule rmatch_setup_no_prefix)
  then have 1: "findall setup_pattern (pre @ str ''install_requires=['' @ body @ str '']'' @ post)
      = body # findall setup_pattern post"
    by (simp only: findall_setup_list [OF assms(2)])
  have 2: "findall (token_pattern uw) body = map token_text toks"
    unfolding assms(3) by (rule findall_list_text [OF assms(4)])
  have "set (parse_dependencies uw (str ''setup.py'')
               (pre @ str ''install_requires=['' @ body @ str '']'' @ post))
      = set (map token_text toks) \<union> set (parse_dependencies uw (str ''setup.py'') post)"
    using parse_setup_set [OF 1] by (simp only: 2)
  with 1 2 show ?thesis by blast
qed

text \<open>
  A list with two tokens that are extracted and, after them, a quoted text with a
  version specifier that is not.
\<close>

theorem setup_list_tokens_witness:
  "set (parse_dependencies latin_letters (str ''setup.py'')
         (setup_pre @ str ''install_requires=['' @ list_text setup_tokens setup_rest @ str '']'' @ str '')''))
     = {str ''requests'', str ''python-dateutil''}"
proof -
  have 1: "\<not> begins_in_front (prefix (str ''install_requires=['')) setup_pre
             (str ''install_requires=['' @ list_text setup_tokens setup_rest @ str '']'' @ str '')'')"
    by code_simp
  have 2: "closing_bracket \<notin> set (list_text setup_tokens setup_rest)"
    by code_simp
  have 4: "list_tokens_ok latin_letters setup_tokens setup_rest"
    by code_simp
  have p: "parse_dependencies latin_letters (str ''setup.py'') (str '')'') = []"
    by code_simp
  from setup_list_tokens [of setup_pre "list_text setup_tokens setup_rest" "str '')''"
      setup_tokens setup_rest latin_letters, OF 1 2 refl 4]
  show ?thesis by (simp add: p setup_tokens_def token_text_def)
qed

text \<open>
  The claim as stated, every quoted token inside the list, fails in two ways. A quoted
  text with a character that is neither a word character nor a hyphen, such as a
  version specifier, is not extracted. And the list that is isolated ends at the first
  closing bracket, so a quoted token after an inner bracket is not in it.
\<close>

theorem setup_list_counterexample:
  "parse_dependencies latin_letters (str ''setup.py'') (str ''install_requires=['numpy>=1.0']'') = [] \<and>
   parse_dependencies latin_letters (str ''setup.py'') (str ''install_requires=[x[0], 'b']'') = []"
  by code_simp

subsection \<open>Every text has these shapes\<close>

text \<open>
  The shapes above put no condition on a file: every text is the text of a list of
  calls in the right shape, every list body the text of a list of tokens in the right
  shape, and every text that holds \<open>install_requires=[\<close> with a closing bracket
  somewhere after it has a first such list. So the theorems on \<open>CMakeLists.txt\<close> and
  \<open>setup.py\<close> speak of every file.
\<close>

lemma begins_in_front_iff:
  "begins_in_front Q gap t \<longleftrightarrow> (\<exists>k < length gap. Q (drop k gap @ t))"
  by (induction gap) (auto simp: less_Suc_eq_0_disj)

lemma begins_split:
  "begins_in_front Q s t \<Longrightarrow>
   \<exists>gap u. s = gap @ u \<and> u \<noteq> [] \<and> Q (u @ t) \<and> \<not> begins_in_front Q gap (u @ t)"
proof (induction s)
  case Nil
  then show ?case by simp
next
  case (Cons c cs)
  show ?case
  proof (cases "Q (c # cs @ t)")
    case True
    then have "c # cs = [] @ (c # cs) \<and> c # cs \<noteq> [] \<and> Q ((c # cs) @ t) \<and>
        \<not> begins_in_front Q [] ((c # cs) @ t)"
      by simp
    then show ?thesis by blast
  next
    case False
    with Cons.prems have "begins_in_front Q cs t" by simp
    from Cons.IH [OF this] obtain gap u where
      g: "cs = gap @ u" "u \<noteq> []" "Q (u @ t)" "\<not> begins_in_front Q gap (u @ t)"
      by blast
    with False have "c # cs = (c # gap) @ u \<and> u \<noteq> [] \<and> Q (u @ t) \<and>
        \<not> begins_in_front Q (c # gap) (u @ t)"
      by simp
    then show ?thesis by blast
  qed
qed

lemma run_split:
  "list_all P (takeWhile P v) \<and> ends_run P (dropWhile P v) \<and> v = takeWhile P v @ dropWhile P v"
proof -
  have "list_all P (takeWhile P v)"
    by (simp add: list_all_iff) (metis set_takeWhileD)
  moreover have "ends_run P (dropWhile P v)"
    by (induction v) (simp_all add: ends_run_def)
  ultimately show ?thesis by simp
qed

lemma cmake_shape_exists:
  "\<exists>calls rest. s = cmake_text calls rest \<and> cmake_calls_ok uw calls rest"
proof (induction s rule: length_induct)
  case (1 s)
  let ?l = "str ''find_package(''"
  let ?P = "is_word uw"
  show ?case
  proof (cases "begins_in_front (starts_call uw) s []")
    case False
    then have "s = cmake_text [] s \<and> cmake_calls_ok uw [] s" by simp
    then show ?thesis by blast
  next
    case True
    from begins_split [OF this] obtain gap u where
      g: "s = gap @ u" "starts_call uw u" "\<not> begins_in_front (starts_call uw) gap u"
      by auto
    define v where "v = drop (length ?l) u"
    from g(2) have p: "prefix ?l u" and h: "case v of [] \<Rightarrow> False | d # _ \<Rightarrow> ?P d"
      by (simp_all add: starts_call_def v_def)
    from p have u: "u = ?l @ v"
      by (metis v_def append_eq_conv_conj prefixE)
    let ?x = "takeWhile ?P v"
    let ?r = "dropWhile ?P v"
    from h have x: "?x \<noteq> []" by (cases v) simp_all
    have split: "list_all ?P ?x" "ends_run ?P ?r" "v = ?x @ ?r"
      using run_split [of ?P v] by simp_all
    have "length ?r < length s"
      using g(1) u x length_dropWhile_le [of ?P v] by (simp add: str_def)
    with 1 obtain calls rest where
      r: "?r = cmake_text calls rest" "cmake_calls_ok uw calls rest"
      by blast
    have "s = cmake_text ((gap, ?x) # calls) rest"
      using g(1) u split(3) r(1) by (metis append_assoc cmake_text.simps(2))
    moreover have "cmake_calls_ok uw ((gap, ?x) # calls) rest"
      using g(3) u split x r by (metis cmake_calls_ok.simps(2))
    ultimately show ?thesis by blast
  qed
qed

lemma list_shape_exists:
  "\<exists>toks rest. s = list_text toks rest \<and> list_tokens_ok uw toks rest"
proof (induction s rule: length_induct)
  case (1 s)
  let ?P = "is_word_or_hyphen uw"
  show ?case
  proof (cases "begins_in_front (starts_token uw) s []")
    case False
    then have "s = list_text [] s \<and> list_tokens_ok uw [] s" by simp
    then show ?thesis by blast
  next
    case True
    from begins_split [OF this] obtain gap u where
      g: "s = gap @ u" "starts_token uw u" "\<not> begins_in_front (starts_token uw) gap u"
      by auto
    from g(2) obtain q v where u: "u = q # v" and q: "is_quote q"
      and x: "takeWhile ?P v \<noteq> []"
      and h: "case dropWhile ?P v of [] \<Rightarrow> False | q' # _ \<Rightarrow> is_quote q'"
      by (cases u) (auto simp: starts_token_def)
    from h obtain q' r where d: "dropWhile ?P v = q' # r" and q': "is_quote q'"
      by (cases "dropWhile ?P v") auto
    let ?x = "takeWhile ?P v"
    have split: "list_all ?P ?x" "v = ?x @ q' # r"
      using run_split [of ?P v] d by simp_all
    have "length (q' # r) \<le> length v"
      using length_dropWhile_le [of ?P v] d by simp
    then have "length r < length s"
      using g(1) u by simp
    with 1 obtain toks rest where
      r: "r = list_text toks rest" "list_tokens_ok uw toks rest"
      by blast
    have "s = list_text ((gap, q, ?x, q') # toks) rest"
      using g(1) u split(2) r(1) by (metis list_text.simps(2))
    moreover have "list_tokens_ok uw ((gap, q, ?x, q') # toks) rest"
      using g(3) u split q q' x r by (metis list_tokens_ok.simps(2))
    ultimately show ?thesis by blast
  qed
qed

lemma bracket_split:
  assumes "closing_bracket \<in> set w"
  shows "\<exists>body post. w = body @ str '']'' @ post \<and> closing_bracket \<notin> set body"
proof -
  let ?N = "\<lambda>c. c \<noteq> closing_bracket"
  from assms have "dropWhile ?N w \<noteq> []" by (simp add: dropWhile_eq_Nil_conv)
  then obtain d post where d: "dropWhile ?N w = d # post" by (cases "dropWhile ?N w") auto
  with hd_dropWhile [of ?N w] have "d = closing_bracket" by simp
  with d have "w = takeWhile ?N w @ str '']'' @ post"
    by (metis takeWhile_dropWhile_id str_closing_bracket append_Cons append_Nil)
  moreover have "closing_bracket \<notin> set (takeWhile ?N w)"
    by (metis set_takeWhileD)
  ultimately show ?thesis by blast
qed

lemma setup_shape_exists:
  "\<exists>pre body post.
     a @ str ''install_requires=['' @ b @ str '']'' @ c
       = pre @ str ''install_requires=['' @ body @ str '']'' @ post \<and>
     \<not> begins_in_front (prefix (str ''install_requires=['')) pre
         (str ''install_requires=['' @ body @ str '']'' @ post) \<and>
     closing_bracket \<notin> set body"
proof (induction a)
  case Nil
  have "closing_bracket \<in> set (b @ str '']'' @ c)"
    by (simp add: str_closing_bracket)
  from bracket_split [OF this] obtain body post where
    "b @ str '']'' @ c = body @ str '']'' @ post" "closing_bracket \<notin> set body"
    by blast
  then have "[] @ str ''install_requires=['' @ b @ str '']'' @ c
      = [] @ str ''install_requires=['' @ body @ str '']'' @ post \<and>
    \<not> begins_in_front (prefix (str ''install_requires=['')) []
        (str ''install_requires=['' @ body @ str '']'' @ post) \<and>
    closing_bracket \<notin> set body"
    by simp
  then show ?case by blast
next
  case (Cons x a)
  let ?l = "str ''install_requires=[''"
  let ?content = "(x # a) @ ?l @ b @ str '']'' @ c"
  show ?case
  proof (cases "prefix ?l ?content")
    case True
    then obtain w where w: "?content = ?l @ w" by (auto elim: prefixE)
    define xs where "xs = (x # a) @ ?l @ b"
    have c: "?content = xs @ (str '']'' @ c)" by (simp add: xs_def)
    have "length ?l \<le> length xs" by (simp add: xs_def)
    then have "drop (length ?l) (xs @ (str '']'' @ c)) = drop (length ?l) xs @ (str '']'' @ c)"
      by simp
    moreover have "w = drop (length ?l) (xs @ (str '']'' @ c))"
      using w c by (metis append_eq_conv_conj)
    ultimately have "w = drop (length ?l) xs @ (str '']'' @ c)"
      by simp
    then have "closing_bracket \<in> set w"
      by (simp add: str_closing_bracket)
    from bracket_split [OF this] obtain body post where
      bp: "w = body @ str '']'' @ post" "closing_bracket \<notin> set body"
      by blast
    with w have "?content = [] @ ?l @ body @ str '']'' @ post \<and>
      \<not> begins_in_front (prefix ?l) [] (?l @ body @ str '']'' @ post) \<and>
      closing_bracket \<notin> set body"
      by simp
    then show ?thesis by blast
  next
    case False
    from Cons.IH obtain pre body post where
      ih: "a @ ?l @ b @ str '']'' @ c = pre @ ?l @ body @ str '']'' @ post"
      "\<not> begins_in_front (prefix ?l) pre (?l @ body @ str '']'' @ post)"
      "closing_bracket \<notin> set body"
      by blast
    from ih(1) have e: "?content = (x # pre) @ ?l @ body @ str '']'' @ post"
      by simp
    with False have "\<not> prefix ?l (x # pre @ ?l @ body @ str '']'' @ post)"
      by simp
    with ih(2) have "\<not> begins_in_front (prefix ?l) (x # pre) (?l @ body @ str '']'' @ post)"
      by simp
    with e ih(3) show ?thesis by blast
  qed
qed

end
